theory Spec2Isabelle
  imports Main "HOL-Library.Sublist" "HOL-Library.Multiset" "HOL-Library.Code_Target_Nat"
begin

section \<open>Go values used by the server\<close>

text \<open>
  A Go \<open>string\<close> and a Go \<open>[]byte\<close> are both sequences of bytes: both are modelled as
  \<^typ>\<open>string\<close> (a list of 8-bit characters). Go's \<open>int\<close> and \<open>int64\<close> are modelled as
  \<^typ>\<open>int\<close>; the only arithmetic the program does on them (counting down the bytes
  left in a body) stays far inside 64 bits.
\<close>

type_synonym bytes = string

text \<open>\<open>http.Header\<close> is \<open>map[string][]string\<close>.\<close>

type_synonym Header = "string \<rightharpoonup> string list"

text \<open>\<open>h[k]\<close>; a missing key reads as the nil slice.\<close>

definition values_of :: "Header \<Rightarrow> string \<Rightarrow> string list" where
  "values_of h k = (case h k of None \<Rightarrow> [] | Some vs \<Rightarrow> vs)"

text \<open>A panic carries its message.\<close>

datatype panic = Panic string

subsection \<open>Formatting an integer (\<open>fmt.Sprintf("%v", n)\<close>)\<close>

definition digit :: "nat \<Rightarrow> char" where
  "digit d = ''0123456789'' ! d"

fun digits :: "nat \<Rightarrow> string" where
  "digits n = (if n < 10 then [digit n] else digits (n div 10) @ [digit (n mod 10)])"

declare digits.simps [simp del]

definition Sprintf_v :: "int \<Rightarrow> string" where
  "Sprintf_v n = (if n < 0 then CHR ''-'' # digits (nat (- n)) else digits (nat n))"

subsection \<open>\<open>strings.Join\<close>\<close>

fun Join :: "string list \<Rightarrow> string \<Rightarrow> string" where
  "Join [] sep = []"
| "Join [e] sep = e"
| "Join (e # es) sep = e @ sep @ Join es sep"

section \<open>Errors\<close>

text \<open>
  The \<open>error\<close> values the program sees: \<open>io.EOF\<close>; any other failure of a read of
  the connection; \<open>errors.New("invalid request line")\<close>;
  \<open>fmt.Errorf("invalid header: %s", kv)\<close>; \<open>fmt.Errorf("bad Content-Length: %s", cl)\<close>.
  A nil error is \<open>None\<close>.
\<close>

datatype error =
    EOF
  | ReadError string
  | InvalidRequestLine
  | InvalidHeader string
  | BadContentLength string

section \<open>String functions of the Go library\<close>

definition byte :: "char \<Rightarrow> nat" where
  "byte c = of_char c"

subsection \<open>\<open>strings.Cut\<close>\<close>

text \<open>
  \<open>Cut(s, sep)\<close> slices \<open>s\<close> around the first instance of \<open>sep\<close>: the text before it,
  the text after it, and whether \<open>sep\<close> was found. When it is not found the result is
  \<open>(s, "", false)\<close>.
\<close>

fun Cut :: "string \<Rightarrow> string \<Rightarrow> string \<times> string \<times> bool" where
  "Cut [] sep = ([], [], sep = [])"
| "Cut (c # s) sep =
     (if take (length sep) (c # s) = sep then ([], drop (length sep) (c # s), True)
      else (case Cut s sep of (before, after, found) \<Rightarrow> (c # before, after, found)))"

subsection \<open>\<open>strings.TrimSpace\<close>\<close>

text \<open>
  \<open>TrimSpace\<close> removes all leading and trailing white space, as defined by Unicode
  (\<open>unicode.IsSpace\<close>), from a UTF-8 string. The white-space runes, in UTF-8:
  U+0009 to U+000D, U+0020, U+0085, U+00A0, U+1680, U+2000 to U+200A, U+2028, U+2029,
  U+202F, U+205F and U+3000. Any other byte sequence, also one that is not valid UTF-8,
  is not white space.
\<close>

definition isSpace_runes :: "string list" where
  "isSpace_runes =
     [[CHR 0x09], [CHR 0x0A], [CHR 0x0B], [CHR 0x0C], [CHR 0x0D], [CHR 0x20],
      [CHR 0xC2, CHR 0x85], [CHR 0xC2, CHR 0xA0],
      [CHR 0xE1, CHR 0x9A, CHR 0x80],
      [CHR 0xE2, CHR 0x80, CHR 0x80], [CHR 0xE2, CHR 0x80, CHR 0x81],
      [CHR 0xE2, CHR 0x80, CHR 0x82], [CHR 0xE2, CHR 0x80, CHR 0x83],
      [CHR 0xE2, CHR 0x80, CHR 0x84], [CHR 0xE2, CHR 0x80, CHR 0x85],
      [CHR 0xE2, CHR 0x80, CHR 0x86], [CHR 0xE2, CHR 0x80, CHR 0x87],
      [CHR 0xE2, CHR 0x80, CHR 0x88], [CHR 0xE2, CHR 0x80, CHR 0x89],
      [CHR 0xE2, CHR 0x80, CHR 0x8A],
      [CHR 0xE2, CHR 0x80, CHR 0xA8], [CHR 0xE2, CHR 0x80, CHR 0xA9],
      [CHR 0xE2, CHR 0x80, CHR 0xAF],
      [CHR 0xE2, CHR 0x81, CHR 0x9F],
      [CHR 0xE3, CHR 0x80, CHR 0x80]]"

text \<open>\<open>strip es s\<close> removes leading occurrences of the sequences \<open>es\<close> from \<open>s\<close>.\<close>

function strip :: "string list \<Rightarrow> string \<Rightarrow> string" where
  "strip es s =
     (case find (\<lambda>e. e \<noteq> [] \<and> take (length e) s = e) es of
        None \<Rightarrow> s
      | Some e \<Rightarrow> strip es (drop (length e) s))"
  by pat_completeness auto
termination
proof (relation "measure (\<lambda>(es, s). length s)")
  show "wf (measure (\<lambda>(es, s). length s))" by simp
next
  fix es :: "string list" and s e :: string
  assume "find (\<lambda>e. e \<noteq> [] \<and> take (length e) s = e) es = Some e"
  then have "e \<noteq> []" and "take (length e) s = e"
    by (auto simp: find_Some_iff)
  then have "s \<noteq> []" by auto
  with \<open>e \<noteq> []\<close> show "((es, drop (length e) s), (es, s)) \<in> measure (\<lambda>(es, s). length s)"
    by simp
qed

declare strip.simps [simp del]

definition TrimLeftFunc :: "string \<Rightarrow> string" where
  "TrimLeftFunc s = strip isSpace_runes s"

definition TrimRightFunc :: "string \<Rightarrow> string" where
  "TrimRightFunc s = rev (strip (map rev isSpace_runes) (rev s))"

definition TrimSpace :: "string \<Rightarrow> string" where
  "TrimSpace s = TrimRightFunc (TrimLeftFunc s)"

subsection \<open>\<open>textproto.TrimString\<close>\<close>

definition isASCIISpace :: "char \<Rightarrow> bool" where
  "isASCIISpace b = (b = CHR '' '' \<or> b = CHR 0x09 \<or> b = CHR 0x0A \<or> b = CHR 0x0D)"

definition TrimString :: "string \<Rightarrow> string" where
  "TrimString s = rev (dropWhile isASCIISpace (rev (dropWhile isASCIISpace s)))"

subsection \<open>\<open>textproto.CanonicalMIMEHeaderKey\<close> and \<open>http.Header.Get\<close>\<close>

definition validHeaderFieldByte :: "char \<Rightarrow> bool" where
  "validHeaderFieldByte c =
     ((48 \<le> byte c \<and> byte c \<le> 57) \<or> (65 \<le> byte c \<and> byte c \<le> 90) \<or>
      (97 \<le> byte c \<and> byte c \<le> 122) \<or>
      c \<in> set [CHR ''!'', CHR ''#'', CHR ''$'', CHR ''%'', CHR ''&'', CHR 0x27, CHR ''*'',
                 CHR ''+'', CHR ''-'', CHR ''.'', CHR ''^'', CHR ''_'', CHR 0x60, CHR ''|'',
                 CHR ''~''])"

fun canonical :: "bool \<Rightarrow> string \<Rightarrow> string" where
  "canonical upper [] = []"
| "canonical upper (c # s) =
     (let c' = (if upper \<and> 97 \<le> byte c \<and> byte c \<le> 122 then char_of (byte c - 32)
                else if \<not> upper \<and> 65 \<le> byte c \<and> byte c \<le> 90 then char_of (byte c + 32)
                else c)
      in c' # canonical (c' = CHR ''-'') s)"

text \<open>A key with a byte that is not valid in a header field name is returned unchanged.\<close>

definition CanonicalMIMEHeaderKey :: "string \<Rightarrow> string" where
  "CanonicalMIMEHeaderKey s = (if list_all validHeaderFieldByte s then canonical True s else s)"

text \<open>
  \<open>Get\<close> returns the first value stored under the canonical form of the key, and
  \<open>""\<close> when there is none.
\<close>

definition Header_Get :: "Header \<Rightarrow> string \<Rightarrow> string" where
  "Header_Get h key =
     (case h (CanonicalMIMEHeaderKey key) of
        None \<Rightarrow> []
      | Some [] \<Rightarrow> []
      | Some (v # vs) \<Rightarrow> v)"

subsection \<open>\<open>strconv.ParseUint(s, 10, bitSize)\<close>\<close>

text \<open>
  The program's only call is \<open>ParseUint(cl, 10, 63)\<close>; the model fixes the base to 10
  and takes \<open>bitSize\<close> from 1 to 64. The accumulator is a \<open>uint64\<close>: the wrap-around of
  its arithmetic is written out. In base 10 a letter is a digit too large for the base,
  so a letter, like any other byte that is not a decimal digit, is a syntax error; there
  is no sign. The empty string is a syntax error as well.
\<close>

datatype NumError = ErrSyntax | ErrRange

definition maxUint64 :: nat where
  "maxUint64 = 2 ^ 64 - 1"

fun ParseUint_loop :: "nat \<Rightarrow> nat \<Rightarrow> nat \<Rightarrow> string \<Rightarrow> NumError + nat" where
  "ParseUint_loop cutoff maxVal n [] = Inr n"
| "ParseUint_loop cutoff maxVal n (c # s) =
     (if 48 \<le> byte c \<and> byte c \<le> 57 then
        (let d = byte c - 48 in
         if n \<ge> cutoff then Inl ErrRange
         else
           (let n = (n * 10) mod 2 ^ 64;
                n1 = (n + d) mod 2 ^ 64
            in if n1 < n \<or> n1 > maxVal then Inl ErrRange
               else ParseUint_loop cutoff maxVal n1 s))
      else Inl ErrSyntax)"

definition ParseUint_10 :: "string \<Rightarrow> nat \<Rightarrow> NumError + nat" where
  "ParseUint_10 s bitSize =
     (if s = [] then Inl ErrSyntax
      else ParseUint_loop (maxUint64 div 10 + 1) (2 ^ bitSize - 1) 0 s)"

section \<open>The buffered reader over the connection\<close>

text \<open>
  \<open>r := bufio.NewReader(conn)\<close>. The state of the reader is the data it has buffered
  and not handed out yet (\<open>buf\<close>), the data the connection will still deliver, one
  element for each further read of the connection that returns data (\<open>rd\<close>), and the
  error the connection returns once that data is used up (\<open>rderr\<close>: \<open>EOF\<close> when the peer
  closes the stream). A connection does not return zero bytes without an error, so the
  elements of \<open>rd\<close> are meant to be non-empty. The capacity of the buffer is not
  modelled: how the incoming data is cut into reads is any list \<open>rd\<close>, and the
  properties below hold for every such list.
\<close>

record Reader =
  buf :: bytes
  rd :: "bytes list"
  rderr :: error

text \<open>All the data not yet handed out, buffered or not.\<close>

definition unread :: "Reader \<Rightarrow> bytes" where
  "unread b = buf b @ concat (rd b)"

definition Buffered :: "Reader \<Rightarrow> nat" where
  "Buffered b = length (buf b)"

text \<open>
  \<open>ReadString(delim)\<close> reads until the first occurrence of \<open>delim\<close> and returns the data
  up to and including the delimiter. When the connection fails before a delimiter is
  seen, it returns the data read so far and the error. \<open>readUntil\<close> is its loop: look
  for the delimiter in the data at hand, read more when it is not there.
\<close>

fun readUntil :: "char \<Rightarrow> bytes \<Rightarrow> bytes list \<Rightarrow> (bytes \<times> bool) \<times> bytes \<times> bytes list" where
  "readUntil delim b [] =
     (if delim \<in> set b
      then ((takeWhile (\<lambda>c. c \<noteq> delim) b @ [delim], True), tl (dropWhile (\<lambda>c. c \<noteq> delim) b), [])
      else ((b, False), [], []))"
| "readUntil delim b (c # cs) =
     (if delim \<in> set b
      then ((takeWhile (\<lambda>c. c \<noteq> delim) b @ [delim], True), tl (dropWhile (\<lambda>c. c \<noteq> delim) b), c # cs)
      else readUntil delim (b @ c) cs)"

definition ReadString :: "char \<Rightarrow> Reader \<Rightarrow> (string \<times> error option) \<times> Reader" where
  "ReadString delim b =
     (case readUntil delim (buf b) (rd b) of
        ((line, found), b', cs') \<Rightarrow>
          ((line, if found then None else Some (rderr b)), b\<lparr>buf := b', rd := cs'\<rparr>))"

text \<open>
  \<open>Read(p)\<close> with \<open>len(p) = k\<close>: the bytes are taken from the buffer or, when it is
  empty, from at most one read of the connection.
\<close>

definition Reader_Read :: "nat \<Rightarrow> Reader \<Rightarrow> (bytes \<times> error option) \<times> Reader" where
  "Reader_Read k b =
     (if k = 0 then (([], None), b)
      else if buf b \<noteq> [] then ((take k (buf b), None), b\<lparr>buf := drop k (buf b)\<rparr>)
      else (case rd b of
              [] \<Rightarrow> (([], Some (rderr b)), b)
            | c # cs \<Rightarrow> ((take k c, None), b\<lparr>buf := drop k c, rd := cs\<rparr>)))"

text \<open>
  \<open>io.Copy(io.Discard, r)\<close> reads \<open>r\<close> until end of stream or an error and throws the
  data away; it returns the number of bytes copied, and a nil error at end of stream.
\<close>

definition Copy_Discard :: "Reader \<Rightarrow> (nat \<times> error option) \<times> Reader" where
  "Copy_Discard b =
     ((length (buf b) + length (concat (rd b)),
       if rderr b = EOF then None else Some (rderr b)),
      b\<lparr>buf := [], rd := []\<rparr>)"

section \<open>The wire parser\<close>

definition parseRequestLine :: "Reader \<Rightarrow> (error + string \<times> string \<times> string) \<times> Reader" where
  "parseRequestLine r =
     (case ReadString (CHR ''\<newline>'') r of
        ((line, Some err), r') \<Rightarrow> (Inl err, r')
      | ((line, None), r') \<Rightarrow>
          (case Cut line '' '' of
             (method, rest, ok1) \<Rightarrow>
               (case Cut rest '' '' of
                  (requestURI, proto, ok2) \<Rightarrow>
                    if \<not> ok1 \<or> \<not> ok2 then (Inl InvalidRequestLine, r')
                    else (Inr (method, requestURI, proto), r'))))"

text \<open>
  \<open>parseMIMEHeader\<close> returns the map built so far together with the error, if any.
  A line that \<open>ReadString\<close> returns without error ends with the delimiter, so every
  round of the loop takes at least one byte off the stream.
\<close>

lemma readUntil_unread:
  "readUntil d b cs = ((line, True), b', cs') \<Longrightarrow> length (b' @ concat cs') < length (b @ concat cs)"
proof (induction cs arbitrary: b)
  case Nil
  then have d: "d \<in> set b" and b': "b' = tl (dropWhile (\<lambda>c. c \<noteq> d) b)" and cs': "cs' = []"
    by (auto split: if_splits)
  from d have "dropWhile (\<lambda>c. c \<noteq> d) b \<noteq> []" by simp
  then have "length b' < length (dropWhile (\<lambda>c. c \<noteq> d) b)" by (simp add: b')
  also have "\<dots> \<le> length b" by (rule length_dropWhile_le)
  finally show ?case by (simp add: cs')
next
  case (Cons c cs)
  show ?case
  proof (cases "d \<in> set b")
    case True
    with Cons.prems have b': "b' = tl (dropWhile (\<lambda>c. c \<noteq> d) b)" and cs': "cs' = c # cs"
      by auto
    from True have "dropWhile (\<lambda>c. c \<noteq> d) b \<noteq> []" by simp
    then have "length b' < length (dropWhile (\<lambda>c. c \<noteq> d) b)" by (simp add: b')
    also have "\<dots> \<le> length b" by (rule length_dropWhile_le)
    finally show ?thesis by (simp add: cs')
  next
    case False
    with Cons.prems have "readUntil d (b @ c) cs = ((line, True), b', cs')" by simp
    from Cons.IH [OF this] show ?thesis by simp
  qed
qed

lemma ReadString_unread:
  "ReadString d r = ((line, None), r') \<Longrightarrow> length (unread r') < length (unread r)"
  by (auto simp: ReadString_def unread_def split: prod.splits if_splits dest: readUntil_unread)

function parseMIMEHeader_loop :: "Header \<Rightarrow> Reader \<Rightarrow> (Header \<times> error option) \<times> Reader" where
  "parseMIMEHeader_loop headers r =
     (case ReadString (CHR ''\<newline>'') r of
        ((kv, Some err), r') \<Rightarrow> ((headers, Some err), r')
      | ((kv, None), r') \<Rightarrow>
          (let kv = TrimSpace kv in
           if length kv = 0 then ((headers, None), r')
           else
             (case Cut kv '':'' of
                (k, v, ok) \<Rightarrow>
                  if \<not> ok then ((headers, Some (InvalidHeader kv)), r')
                  else
                    (let k = TrimSpace k; v = TrimSpace v
                     in parseMIMEHeader_loop (headers(k \<mapsto> values_of headers k @ [v])) r'))))"
  by pat_completeness auto
termination
  by (relation "measure (\<lambda>(headers, r). length (unread r))")
    (auto dest: ReadString_unread [OF sym])

declare parseMIMEHeader_loop.simps [simp del]

definition parseMIMEHeader :: "Reader \<Rightarrow> (Header \<times> error option) \<times> Reader" where
  "parseMIMEHeader r = parseMIMEHeader_loop Map.empty r"

definition parseContentLength :: "Header \<Rightarrow> error + int" where
  "parseContentLength h =
     (let cl = Header_Get h ''Content-Length'';
          cl = (if length cl = 0
                then (case h ''content-length'' of Some (v # vs) \<Rightarrow> v | _ \<Rightarrow> cl)
                else cl);
          cl = TrimString cl
      in if cl = [] then Inr (- 1)
         else (case ParseUint_10 cl 63 of
                 Inl err \<Rightarrow> Inl (BadContentLength cl)
               | Inr n \<Rightarrow> Inr (int n)))"

section \<open>The body stream\<close>

text \<open>
  The body is \<open>struct { io.Reader; io.Closer }\<close>: an \<open>io.LimitReader(r, contentLength)\<close>,
  whose state is the underlying reader \<open>R\<close> and the number \<open>N\<close> of bytes it may still
  hand out, and a closer over the same reader \<open>r\<close>. The first variant of the server
  closes with \<open>naiveCloser\<close>, the second with \<open>ioutil.NopCloser\<close>. Both parts point to
  one reader, which is the single field \<open>R\<close>.
\<close>

datatype Closer = naiveCloser | NopCloser

record Body =
  R :: Reader
  N :: int
  closer :: Closer

definition makeBodyReadCloser :: "Reader \<Rightarrow> int \<Rightarrow> Body" where
  "makeBodyReadCloser r contentLength = \<lparr>R = r, N = contentLength, closer = naiveCloser\<rparr>"

text \<open>The body that the second variant of \<open>handleConn\<close> builds in place.\<close>

definition makeBodyNopCloser :: "Reader \<Rightarrow> int \<Rightarrow> Body" where
  "makeBodyNopCloser r contentLength = \<lparr>R = r, N = contentLength, closer = NopCloser\<rparr>"

text \<open>\<open>LimitedReader.Read(p)\<close> with \<open>len(p) = k\<close>.\<close>

definition Body_Read :: "nat \<Rightarrow> Body \<Rightarrow> (bytes \<times> error option) \<times> Body" where
  "Body_Read k l =
     (if N l \<le> 0 then (([], Some EOF), l)
      else
        (let k = (if int k > N l then nat (N l) else k)
         in (case Reader_Read k (R l) of
               ((p, err), r') \<Rightarrow> ((p, err), l\<lparr>R := r', N := N l - int (length p)\<rparr>))))"

definition naiveCloser_Close :: "Reader \<Rightarrow> error option \<times> Reader" where
  "naiveCloser_Close r =
     (if Buffered r > 0
      then (case Copy_Discard r of ((n, err), r') \<Rightarrow> (err, r'))
      else (None, r))"

definition Body_Close :: "Body \<Rightarrow> error option \<times> Body" where
  "Body_Close l =
     (case closer l of
        naiveCloser \<Rightarrow> (case naiveCloser_Close (R l) of (err, r') \<Rightarrow> (err, l\<lparr>R := r'\<rparr>))
      | NopCloser \<Rightarrow> (None, l))"

text \<open>
  \<open>ioutil.ReadAll\<close> reads until an error or end of stream, which it reports as a nil
  error. Its slice \<open>b\<close> starts with capacity 512 and is modelled by its contents and its
  spare capacity \<open>cap(b) - len(b)\<close>; each read is offered the whole spare capacity. When
  the slice is full, \<open>append\<close> picks the new capacity: at least one byte more, the rest
  (\<open>grow\<close>, from the old capacity) is the runtime's choice.
\<close>

definition stream_size :: "Reader \<Rightarrow> nat" where
  "stream_size r = length (buf r) + sum_list (map (\<lambda>c. Suc (length c)) (rd r))"

lemma Body_Read_progress:
  assumes "Body_Read k l = ((p, None), l')"
  shows "stream_size (R l') < stream_size (R l) \<or> (k = 0 \<and> p = [] \<and> l' = l)"
proof -
  from assms have pos: "0 < N l"
    by (auto simp: Body_Read_def split: if_splits)
  define k' where "k' = (if int k > N l then nat (N l) else k)"
  from assms pos obtain r' where rr: "Reader_Read k' (R l) = ((p, None), r')"
    and l': "l' = l\<lparr>R := r', N := N l - int (length p)\<rparr>"
    by (auto simp: Body_Read_def k'_def Let_def split: if_splits prod.splits)
  show ?thesis
  proof (cases "k = 0")
    case True
    then have "k' = 0" using pos by (simp add: k'_def)
    with rr l' True show ?thesis by (simp add: Reader_Read_def)
  next
    case False
    then have k'pos: "0 < k'" using pos by (simp add: k'_def)
    show ?thesis
    proof (cases "buf (R l) = []")
      case True
      with rr k'pos obtain c cs where "rd (R l) = c # cs"
        and "r' = (R l)\<lparr>buf := drop k' c, rd := cs\<rparr>"
        by (auto simp: Reader_Read_def split: list.splits)
      with True l' have "stream_size (R l') < stream_size (R l)"
        by (simp add: stream_size_def less_Suc_eq_le)
      then show ?thesis ..
    next
      case False
      with rr k'pos have "r' = (R l)\<lparr>buf := drop k' (buf (R l))\<rparr>"
        by (auto simp: Reader_Read_def)
      with False k'pos l' have "stream_size (R l') < stream_size (R l)"
        by (simp add: stream_size_def)
      then show ?thesis ..
    qed
  qed
qed

function ReadAll_loop :: "(nat \<Rightarrow> nat) \<Rightarrow> Body \<Rightarrow> bytes \<Rightarrow> nat \<Rightarrow> (bytes \<times> error option) \<times> Body" where
  "ReadAll_loop grow l b spare =
     (case Body_Read spare l of
        ((p, err), l') \<Rightarrow>
          (let b = b @ p; spare = spare - length p in
           (case err of
              Some e \<Rightarrow> ((b, if e = EOF then None else Some e), l')
            | None \<Rightarrow>
                ReadAll_loop grow l' b
                  (if spare = 0 then Suc (grow (length b)) else spare))))"
  by pat_completeness auto
termination
proof (relation "measures [\<lambda>(grow, l, b, spare). stream_size (R l),
                           \<lambda>(grow, l, b, spare). if spare = 0 then 1 else 0]")
  show "wf (measures [\<lambda>(grow, l, b, spare). stream_size (R l),
                      \<lambda>(grow, l, b, spare). if spare = 0 then 1 else 0])"
    by simp
next
  fix grow :: "nat \<Rightarrow> nat" and l l' :: Body and b p :: bytes and spare :: nat
    and x :: "bytes \<times> error option" and err :: "error option" and b' :: bytes and spare' :: nat
  assume "(x, l') = Body_Read spare l" and "(p, err) = x" and "b' = b @ p"
    and "spare' = spare - length p" and "err = None"
  then have "Body_Read spare l = ((p, None), l')" by simp
  from Body_Read_progress [OF this]
  show "((grow, l', b', if spare' = 0 then Suc (grow (length b')) else spare'),
         (grow, l, b, spare))
        \<in> measures [\<lambda>(grow, l, b, spare). stream_size (R l),
                     \<lambda>(grow, l, b, spare). if spare = 0 then 1 else 0]"
    using \<open>spare' = spare - length p\<close> by auto
qed

declare ReadAll_loop.simps [simp del]

definition ReadAll :: "(nat \<Rightarrow> nat) \<Rightarrow> Body \<Rightarrow> (bytes \<times> error option) \<times> Body" where
  "ReadAll grow l = ReadAll_loop grow l [] 512"

section \<open>The response\<close>

text \<open>
  \<open>type Response struct { status int; header http.Header; data []byte }\<close>.
  The zero value \<open>Response{}\<close> has status 0, a nil header map and no data. A nil map
  reads as the empty map; only \<open>WriteHeader\<close> tells them apart.
\<close>

record Response =
  status :: int
  header :: "Header option"
  data :: bytes

definition Response_zero :: Response where
  "Response_zero = \<lparr>status = 0, header = None, data = []\<rparr>"

definition WriteStatus :: "int \<Rightarrow> Response \<Rightarrow> panic + Response" where
  "WriteStatus code r =
     (if code < 100 \<or> code > 999
      then Inl (Panic (''invalid WriteHeader code '' @ Sprintf_v code))
      else Inr (r\<lparr>status := code\<rparr>))"

definition WriteData :: "bytes \<Rightarrow> Response \<Rightarrow> Response" where
  "WriteData d r = r\<lparr>data := data r @ d\<rparr>"

definition WriteHeader :: "string \<Rightarrow> string \<Rightarrow> Response \<Rightarrow> Response" where
  "WriteHeader field val r =
     (let h = (case header r of None \<Rightarrow> Map.empty | Some h \<Rightarrow> h)
      in r\<lparr>header := Some (h(field \<mapsto> values_of h field @ [val]))\<rparr>)"

text \<open>
  \<open>respond\<close> ranges over the header map. Go leaves the order of a map range
  unspecified, so the order the runtime picks is a parameter \<open>ks\<close> of the model:
  any list that holds every key of the map exactly once.
\<close>

definition range_order :: "Header option \<Rightarrow> string list \<Rightarrow> bool" where
  "range_order ho ks =
     (distinct ks \<and> set ks = (case ho of None \<Rightarrow> {} | Some h \<Rightarrow> dom h))"

definition header_lines :: "string list \<Rightarrow> Header option \<Rightarrow> string list" where
  "header_lines ks ho =
     (case ho of None \<Rightarrow> []
      | Some h \<Rightarrow> concat (map (\<lambda>k. map (\<lambda>vv. k @ '': '' @ vv) (values_of h k)) ks))"

definition respond :: "string list \<Rightarrow> Response \<Rightarrow> bytes" where
  "respond ks r =
     (let statusLine = ''HTTP/1.1 '' @ Sprintf_v (status r) @ '' OK'';
          headers = header_lines ks (header r);
          headers = headers @ [''Content-Length: '' @ Sprintf_v (int (length (data r)))]
      in (statusLine @ ''\<newline>'' @ Join headers ''\<newline>'' @ ''\<newline>'' @ ''\<newline>'') @ data r)"

section \<open>Example inputs, and the properties the code is compared with\<close>

text \<open>
  Two responses: the one the handler of the server builds (\<open>WriteStatus(200)\<close>, then
  the header, then the data, on the zero value), and one whose handler sets a
  \<open>Content-Length\<close> header of its own.
\<close>

definition hello_response :: Response where
  "hello_response =
     WriteData ''hello world'' (WriteHeader ''Content-Type'' ''text/plain''
       (Response_zero\<lparr>status := 200\<rparr>))"

definition own_length_response :: Response where
  "own_length_response =
     WriteData ''hi'' (WriteHeader ''Content-Length'' ''99'' (Response_zero\<lparr>status := 200\<rparr>))"

text \<open>A reader whose data arrives in several reads of the connection.\<close>

definition example_reader :: Reader where
  "example_reader = \<lparr>buf = ''he'', rd = [''l'', ''lo wor'', ''ld''], rderr = EOF\<rparr>"

text \<open>
  What closing a body of \<open>N\<close> unread bytes is expected to leave on the underlying
  stream: everything but those \<open>N\<close> bytes, and nothing less.
\<close>

definition drained_exactly :: "Body \<Rightarrow> Body \<Rightarrow> bool" where
  "drained_exactly l l' = (unread (R l') = drop (nat (N l)) (unread (R l)))"

text \<open>
  What it means for a header value to parse as a non-negative 64-bit integer: it is a
  non-empty string of decimal digits, and the number it denotes (\<open>decimal_value\<close>) fits
  the non-negative range of \<open>int64\<close>, that is, lies below \<open>2 ^ 63\<close>.
\<close>

definition is_decimal :: "string \<Rightarrow> bool" where
  "is_decimal s = (s \<noteq> [] \<and> list_all (\<lambda>c. 48 \<le> byte c \<and> byte c \<le> 57) s)"

definition decimal_from :: "nat \<Rightarrow> string \<Rightarrow> nat" where
  "decimal_from n s = foldl (\<lambda>n c. 10 * n + (byte c - 48)) n s"

definition decimal_value :: "string \<Rightarrow> nat" where
  "decimal_value s = decimal_from 0 s"

text \<open>
  One round of the header loop stores a value: \<open>headers[k] = append(headers[k], v)\<close>.
\<close>

definition add_value :: "Header \<Rightarrow> string \<times> string \<Rightarrow> Header" where
  "add_value h p = h(fst p \<mapsto> values_of h (fst p) @ [snd p])"

text \<open>
  A header block whose name \<open>Host\<close> comes in two casings, split over two reads of the
  connection and followed by a body.
\<close>

definition example_headers :: Reader where
  "example_headers =
     \<lparr>buf = ''Host: a\<newline>host: b\<newline>Ho'', rd = [''st: c\<newline>\<newline>body''], rderr = EOF\<rparr>"

text \<open>
  A request whose header block spells the content length twice: \<open>Content-Length\<close> with
  an empty value, then \<open>content-length\<close> with the value 7, followed by eleven bytes.
\<close>

definition both_spellings :: Reader where
  "both_spellings =
     \<lparr>buf = ''Content-Length: \<newline>content-length: 7\<newline>\<newline>hello world'', rd = [], rderr = EOF\<rparr>"

section \<open>Lines read from the connection\<close>

lemma split_at_delim:
  assumes "d \<notin> set l" and "b @ x = l @ d # rest" and "d \<in> set b"
  shows "\<exists>b''. b = l @ d # b'' \<and> rest = b'' @ x"
proof -
  from assms(2) obtain us where
    "(b = l @ us \<and> us @ x = d # rest) \<or> (b @ us = l \<and> x = us @ d # rest)"
    by (auto simp: append_eq_append_conv2)
  then show ?thesis
  proof
    assume h: "b = l @ us \<and> us @ x = d # rest"
    with assms(1,3) have "us \<noteq> []" by auto
    with h obtain us' where "us = d # us'" and "rest = us' @ x"
      by (cases us) auto
    with h show ?thesis by simp
  next
    assume "b @ us = l \<and> x = us @ d # rest"
    with assms(1,3) show ?thesis by auto
  qed
qed

lemma takeWhile_delim: "d \<notin> set l \<Longrightarrow> takeWhile (\<lambda>c. c \<noteq> d) (l @ d # r) = l"
  by (induction l) auto

lemma dropWhile_delim: "d \<notin> set l \<Longrightarrow> dropWhile (\<lambda>c. c \<noteq> d) (l @ d # r) = d # r"
  by (induction l) auto

lemma readUntil_line:
  assumes "d \<notin> set l" and "b @ concat cs = l @ d # rest"
  shows "\<exists>b' cs'. readUntil d b cs = ((l @ [d], True), b', cs') \<and> b' @ concat cs' = rest"
  using assms
proof (induction cs arbitrary: b)
  case Nil
  then have "d \<in> set b" by auto
  from split_at_delim [OF Nil.prems(1) Nil.prems(2) this]
  obtain b'' where "b = l @ d # b''" and "rest = b'' @ concat []" by blast
  with Nil.prems(1) show ?case
    by (simp add: takeWhile_delim dropWhile_delim)
next
  case (Cons c cs)
  show ?case
  proof (cases "d \<in> set b")
    case True
    from split_at_delim [OF Cons.prems(1) Cons.prems(2) True]
    obtain b'' where "b = l @ d # b''" and "rest = b'' @ concat (c # cs)" by blast
    with Cons.prems(1) show ?thesis
      by (simp add: takeWhile_delim dropWhile_delim)
  next
    case False
    from Cons.prems have "(b @ c) @ concat cs = l @ d # rest" by simp
    from Cons.IH [OF Cons.prems(1) this] False show ?thesis by simp
  qed
qed

lemma ReadString_line:
  assumes "d \<notin> set l" and "unread r = l @ d # rest"
  shows "\<exists>r'. ReadString d r = ((l @ [d], None), r') \<and> unread r' = rest \<and> rderr r' = rderr r"
proof -
  from assms(2) have "buf r @ concat (rd r) = l @ d # rest" by (simp add: unread_def)
  from readUntil_line [OF assms(1) this] obtain b' cs' where
    "readUntil d (buf r) (rd r) = ((l @ [d], True), b', cs')" and "b' @ concat cs' = rest"
    by blast
  then show ?thesis by (simp add: ReadString_def unread_def)
qed

lemma Cut_char: "c \<notin> set a \<Longrightarrow> Cut (a @ c # b) [c] = (a, b, True)"
  by (induction a) auto

section \<open>Parsing the request line\<close>

text \<open>
  C1. For every request line made of a method \<open>M\<close>, a space, a target \<open>T\<close>, a space, a
  protocol \<open>P\<close> and a newline (no space in \<open>M\<close> and \<open>T\<close>, no newline in any of the three),
  however the line is split over reads of the connection, \<open>parseRequestLine\<close> succeeds
  and leaves what follows the line on the stream. The method and the target it returns
  are \<open>M\<close> and \<open>T\<close>, byte for byte. The protocol it returns is not \<open>P\<close>: it is \<open>P\<close> followed
  by the newline, since \<open>ReadString\<close> returns the line with its delimiter and nothing
  takes it off before the line is cut. For the request line of the source's own
  comment, \<open>GET /index.html HTTP/1.0\<close>, the protocol comes out as \<open>HTTP/1.0\<close> and a
  newline.
\<close>

theorem parseRequestLine_tokens:
  assumes "CHR '' '' \<notin> set M" and "CHR '' '' \<notin> set T"
    and "CHR ''\<newline>'' \<notin> set M \<union> set T \<union> set P"
    and "unread r = M @ '' '' @ T @ '' '' @ P @ ''\<newline>'' @ rest"
  shows "\<exists>r'. parseRequestLine r = (Inr (M, T, P @ ''\<newline>''), r') \<and> unread r' = rest"
proof -
  let ?l = "M @ '' '' @ T @ '' '' @ P"
  from assms(3) have nl: "CHR ''\<newline>'' \<notin> set ?l" by simp
  from assms(4) have "unread r = ?l @ CHR ''\<newline>'' # rest" by simp
  from ReadString_line [OF nl this] obtain r' where
    rs: "ReadString (CHR ''\<newline>'') r = ((?l @ ''\<newline>'', None), r')" and u: "unread r' = rest"
    by auto
  have c1: "Cut (?l @ ''\<newline>'') '' '' = (M, T @ '' '' @ P @ ''\<newline>'', True)"
    using Cut_char [OF assms(1), of "T @ '' '' @ P @ ''\<newline>''"] by simp
  have c2: "Cut (T @ '' '' @ P @ ''\<newline>'') '' '' = (T, P @ ''\<newline>'', True)"
    using Cut_char [OF assms(2), of "P @ ''\<newline>''"] by simp
  from rs c1 c2 u show ?thesis
    by (simp add: parseRequestLine_def)
qed

theorem parseRequestLine_tokens_witness:
  "fst (parseRequestLine \<lparr>buf = ''GET /index.html HTTP/1.0\<newline>'', rd = [], rderr = EOF\<rparr>) =
     Inr (''GET'', ''/index.html'', ''HTTP/1.0\<newline>'')"
  using parseRequestLine_tokens
    [of "''GET''" "''/index.html''" "''HTTP/1.0''"
        "\<lparr>buf = ''GET /index.html HTTP/1.0\<newline>'', rd = [], rderr = EOF\<rparr>" "[]"]
  by (auto simp: unread_def)

section \<open>Trimming white space\<close>

lemma take_eq_imp_le: "take (length e) n = e \<Longrightarrow> length e \<le> length n"
proof -
  assume "take (length e) n = e"
  then have "length (take (length e) n) = length e" by simp
  then have "min (length n) (length e) = length e" by (simp only: length_take)
  then show ?thesis by arith
qed

lemma strip_Nil: "strip es [] = []"
proof -
  have "find (\<lambda>e. e \<noteq> [] \<and> take (length e) [] = e) es = None"
    by (auto simp: find_None_iff)
  then show ?thesis by (subst strip.simps) simp
qed

lemma strip_suffix: "\<exists>k. strip es s = drop k s"
proof (induction es s rule: strip.induct)
  case (1 es s)
  show ?case
  proof (cases "find (\<lambda>e. e \<noteq> [] \<and> take (length e) s = e) es")
    case None
    then have "strip es s = drop 0 s" by (subst strip.simps) simp
    then show ?thesis by blast
  next
    case (Some e)
    from "1.IH" [OF Some] obtain k where "strip es (drop (length e) s) = drop k (drop (length e) s)"
      by blast
    moreover have "strip es s = strip es (drop (length e) s)"
      using Some by (subst strip.simps) simp
    ultimately have "strip es s = drop (length e + k) s" by (simp add: add.commute)
    then show ?thesis by blast
  qed
qed

lemma strip_same_length: "length (strip es s) = length s \<Longrightarrow> strip es s = s"
proof -
  assume l: "length (strip es s) = length s"
  obtain k where k: "strip es s = drop k s" using strip_suffix by blast
  with l have "length s - k = length s" by simp
  then have "k = 0 \<or> s = []" by (cases s) auto
  with k show ?thesis by auto
qed

lemma strip_length_le: "length (strip es s) \<le> length s"
proof -
  obtain k where "strip es s = drop k s" using strip_suffix by blast
  then show ?thesis by simp
qed

text \<open>
  A byte \<open>c\<close> that occurs in no sequence of \<open>es\<close>, or only as the one-byte sequence
  \<open>[c]\<close>, stops the stripping once something is left in front of it.
\<close>

lemma find_rune_append:
  assumes "\<forall>e\<in>set es. c \<in> set e \<longrightarrow> e = [c] \<and> n \<noteq> []"
  shows "find (\<lambda>e. e \<noteq> [] \<and> take (length e) (n @ c # r) = e) es =
         find (\<lambda>e. e \<noteq> [] \<and> take (length e) n = e) es"
proof (rule find_cong [OF refl])
  fix e assume e: "e \<in> set es"
  show "(e \<noteq> [] \<and> take (length e) (n @ c # r) = e) = (e \<noteq> [] \<and> take (length e) n = e)"
  proof (cases "length e \<le> length n")
    case True
    then show ?thesis by simp
  next
    case False
    then have "take (length e) n \<noteq> e"
      using take_eq_imp_le by blast
    moreover have "take (length e) (n @ c # r) \<noteq> e"
    proof
      assume t: "take (length e) (n @ c # r) = e"
      from False have "take (length e) (n @ c # r) = n @ c # take (length e - Suc (length n)) r"
        by (simp add: take_Cons')
      with t have "c \<in> set e" and "length e > length n \<or> n = []"
        using False by (metis in_set_conv_decomp, simp)
      with assms e have "e = [c]" and "n \<noteq> []" by auto
      with False show False by (cases n) auto
    qed
    ultimately show ?thesis by simp
  qed
qed

lemma strip_append_sep:
  assumes "\<forall>e\<in>set es. c \<in> set e \<longrightarrow> e = [c] \<and> strip es n \<noteq> []"
  shows "strip es (n @ c # r) = strip es n @ c # r"
  using assms
proof (induction es n rule: strip.induct)
  case (1 es n)
  have ne: "\<forall>e\<in>set es. c \<in> set e \<longrightarrow> e = [c] \<and> n \<noteq> []"
    using "1.prems" strip_Nil by fastforce
  note f = find_rune_append [OF ne, of r]
  show ?case
  proof (cases "find (\<lambda>e. e \<noteq> [] \<and> take (length e) n = e) es")
    case None
    then have "strip es n = n" by (subst strip.simps) simp
    moreover have "strip es (n @ c # r) = n @ c # r"
      using None f by (subst strip.simps) simp
    ultimately show ?thesis by simp
  next
    case (Some e)
    then have "take (length e) n = e" by (auto simp: find_Some_iff)
    then have le: "length e \<le> length n" by (rule take_eq_imp_le)
    have s1: "strip es n = strip es (drop (length e) n)"
      using Some by (subst strip.simps) simp
    have "strip es (n @ c # r) = strip es (drop (length e) (n @ c # r))"
      using Some f by (subst strip.simps) simp
    also have "\<dots> = strip es (drop (length e) n @ c # r)" using le by simp
    also have "\<dots> = strip es (drop (length e) n) @ c # r"
    proof -
      have "\<forall>e'\<in>set es. c \<in> set e' \<longrightarrow> e' = [c] \<and> strip es (drop (length e) n) \<noteq> []"
        using "1.prems" s1 by simp
      then show ?thesis by (rule "1.IH" [OF Some])
    qed
    finally show ?thesis using s1 by simp
  qed
qed

lemma strip_leading:
  assumes "[c] \<in> set es" and "\<forall>e\<in>set es. c \<in> set e \<longrightarrow> e = [c]"
  shows "strip es (c # s) = strip es s"
proof -
  from assms(1) have "find (\<lambda>e. e \<noteq> [] \<and> take (length e) (c # s) = e) es \<noteq> None"
    by (auto simp: find_None_iff)
  then obtain e where f: "find (\<lambda>e. e \<noteq> [] \<and> take (length e) (c # s) = e) es = Some e"
    by blast
  then have e: "e \<in> set es" and "e \<noteq> []" and "take (length e) (c # s) = e"
    by (auto simp: find_Some_iff)
  from this(2,3) have "c \<in> set e" by (cases e) auto
  with assms(2) e have "e = [c]" by blast
  with f show ?thesis by (subst strip.simps) simp
qed

lemma runes_colon:
  "\<forall>e\<in>set isSpace_runes. CHR '':'' \<notin> set e"
  "\<forall>e\<in>set (map rev isSpace_runes). CHR '':'' \<notin> set e"
  by (simp_all add: isSpace_runes_def)

lemma runes_space:
  "[CHR '' ''] \<in> set isSpace_runes"
  "[CHR '' ''] \<in> set (map rev isSpace_runes)"
  "\<forall>e\<in>set isSpace_runes. CHR '' '' \<in> set e \<longrightarrow> e = [CHR '' '']"
  "\<forall>e\<in>set (map rev isSpace_runes). CHR '' '' \<in> set e \<longrightarrow> e = [CHR '' '']"
  by (simp_all add: isSpace_runes_def)

lemma runes_newline:
  "[CHR ''\<newline>''] \<in> set isSpace_runes"
  "[CHR ''\<newline>''] \<in> set (map rev isSpace_runes)"
  "\<forall>e\<in>set isSpace_runes. CHR ''\<newline>'' \<in> set e \<longrightarrow> e = [CHR ''\<newline>'']"
  "\<forall>e\<in>set (map rev isSpace_runes). CHR ''\<newline>'' \<in> set e \<longrightarrow> e = [CHR ''\<newline>'']"
  by (simp_all add: isSpace_runes_def)

lemma TrimSpace_Nil: "TrimSpace [] = []"
  by (simp add: TrimSpace_def TrimLeftFunc_def TrimRightFunc_def strip_Nil)

lemma TrimSpace_newline: "TrimSpace ''\<newline>'' = []"
proof -
  have "strip isSpace_runes (CHR ''\<newline>'' # []) = strip isSpace_runes []"
    by (rule strip_leading [OF runes_newline(1) runes_newline(3)])
  then show ?thesis
    by (simp add: TrimSpace_def TrimLeftFunc_def TrimRightFunc_def strip_Nil)
qed

lemma TrimSpace_fixed:
  assumes "TrimSpace s = s"
  shows "TrimLeftFunc s = s" and "TrimRightFunc s = s"
proof -
  have "length s = length (TrimRightFunc (TrimLeftFunc s))"
    using assms by (simp add: TrimSpace_def)
  also have "\<dots> \<le> length (TrimLeftFunc s)"
    using strip_length_le [of "map rev isSpace_runes" "rev (TrimLeftFunc s)"]
    by (simp add: TrimRightFunc_def)
  finally have "length (TrimLeftFunc s) = length s"
    using strip_length_le [of isSpace_runes s] by (simp add: TrimLeftFunc_def)
  then show l: "TrimLeftFunc s = s"
    unfolding TrimLeftFunc_def by (rule strip_same_length)
  with assms show "TrimRightFunc s = s" by (simp add: TrimSpace_def)
qed

lemma TrimLeftFunc_colon: "TrimLeftFunc (n @ CHR '':'' # r) = TrimLeftFunc n @ CHR '':'' # r"
  unfolding TrimLeftFunc_def using runes_colon(1) by (intro strip_append_sep) blast

lemma TrimRightFunc_colon: "TrimRightFunc (n @ CHR '':'' # r) = n @ CHR '':'' # TrimRightFunc r"
proof -
  have "strip (map rev isSpace_runes) (rev r @ CHR '':'' # rev n) =
        strip (map rev isSpace_runes) (rev r) @ CHR '':'' # rev n"
    using runes_colon(2) by (intro strip_append_sep) blast
  then show ?thesis by (simp add: TrimRightFunc_def)
qed

lemma TrimRightFunc_newline: "TrimRightFunc (s @ ''\<newline>'') = TrimRightFunc s"
  using strip_leading [OF runes_newline(2) runes_newline(4), of "rev s"]
  by (simp add: TrimRightFunc_def)

lemma TrimLeftFunc_space: "TrimLeftFunc (CHR '' '' # s) = TrimLeftFunc s"
  unfolding TrimLeftFunc_def by (rule strip_leading [OF runes_space(1) runes_space(3)])

lemma TrimRightFunc_space:
  assumes "TrimRightFunc v = v"
  shows "TrimRightFunc (CHR '' '' # v) = (if v = [] then [] else CHR '' '' # v)"
proof (cases "v = []")
  case True
  have "strip (map rev isSpace_runes) (CHR '' '' # []) = strip (map rev isSpace_runes) []"
    by (rule strip_leading [OF runes_space(2) runes_space(4)])
  with True show ?thesis by (simp add: TrimRightFunc_def strip_Nil)
next
  case False
  from assms have s: "strip (map rev isSpace_runes) (rev v) = rev v"
    by (simp add: TrimRightFunc_def rev_swap)
  have "strip (map rev isSpace_runes) (rev v @ CHR '' '' # []) =
        strip (map rev isSpace_runes) (rev v) @ CHR '' '' # []"
    using runes_space(4) s False by (intro strip_append_sep) auto
  with s False show ?thesis by (simp add: TrimRightFunc_def)
qed

text \<open>One header line, as a round of the loop of \<open>parseMIMEHeader\<close> treats it.\<close>

lemma header_line:
  assumes "CHR '':'' \<notin> set n" and "TrimSpace n = n" and "TrimSpace v = v"
  defines "w \<equiv> (if v = [] then [] else CHR '' '' # v)"
  shows "TrimSpace (n @ '': '' @ v @ ''\<newline>'') = n @ CHR '':'' # w"
    and "Cut (n @ CHR '':'' # w) '':'' = (n, w, True)"
    and "TrimSpace w = v"
proof -
  note n = TrimSpace_fixed [OF assms(2)] and v = TrimSpace_fixed [OF assms(3)]
  have "TrimSpace (n @ '': '' @ v @ ''\<newline>'') =
      TrimRightFunc (TrimLeftFunc (n @ CHR '':'' # (CHR '' '' # v @ ''\<newline>'')))"
    by (simp add: TrimSpace_def)
  also have "\<dots> = n @ CHR '':'' # TrimRightFunc ((CHR '' '' # v) @ ''\<newline>'')"
    by (simp only: TrimLeftFunc_colon TrimRightFunc_colon n) simp
  also have "\<dots> = n @ CHR '':'' # w"
    by (simp only: TrimRightFunc_newline TrimRightFunc_space [OF v(2)] w_def)
  finally show "TrimSpace (n @ '': '' @ v @ ''\<newline>'') = n @ CHR '':'' # w" .
  show "Cut (n @ CHR '':'' # w) '':'' = (n, w, True)"
    by (rule Cut_char [OF assms(1)])
  show "TrimSpace w = v"
  proof (cases "v = []")
    case True
    then show ?thesis by (simp add: w_def TrimSpace_Nil)
  next
    case False
    then have "TrimSpace w = TrimRightFunc (TrimLeftFunc (CHR '' '' # v))"
      by (simp add: w_def TrimSpace_def)
    also have "\<dots> = v" by (simp add: TrimLeftFunc_space v)
    finally show ?thesis .
  qed
qed

section \<open>Parsing the header block\<close>

lemma foldl_add_value:
  "foldl add_value h kvs k =
     (if k \<in> fst ` set kvs
      then Some (values_of h k @ map snd (filter (\<lambda>p. fst p = k) kvs))
      else h k)"
proof (induction kvs arbitrary: h)
  case Nil
  show ?case by simp
next
  case (Cons p kvs)
  have v: "values_of (add_value h p) x =
      (if x = fst p then values_of h x @ [snd p] else values_of h x)" for x
    by (simp add: add_value_def values_of_def)
  have a: "add_value h p x = (if x = fst p then Some (values_of h x @ [snd p]) else h x)" for x
    by (simp add: add_value_def)
  have none: "filter (\<lambda>q. fst q = k) kvs = []" if "k \<notin> fst ` set kvs"
    using that by (auto simp: filter_empty_conv)
  have "foldl add_value h (p # kvs) k = foldl add_value (add_value h p) kvs k" by simp
  also have "\<dots> = (if k \<in> fst ` set kvs
      then Some (values_of (add_value h p) k @ map snd (filter (\<lambda>p. fst p = k) kvs))
      else add_value h p k)"
    by (rule Cons.IH)
  also have "\<dots> = (if k \<in> fst ` set (p # kvs)
      then Some (values_of h k @ map snd (filter (\<lambda>p. fst p = k) (p # kvs)))
      else h k)"
  proof (cases "k = fst p")
    case True
    then show ?thesis using none by (simp add: v a)
  next
    case False
    then have "fst p \<noteq> k" by blast
    with False show ?thesis by (simp add: v a)
  qed
  finally show ?case .
qed

lemma parseMIMEHeader_loop_block:
  assumes "\<forall>p\<in>set kvs. CHR '':'' \<notin> set (fst p) \<and> CHR ''\<newline>'' \<notin> set (fst p) \<and>
             CHR ''\<newline>'' \<notin> set (snd p) \<and> TrimSpace (fst p) = fst p \<and> TrimSpace (snd p) = snd p"
    and "unread r = concat (map (\<lambda>p. fst p @ '': '' @ snd p @ ''\<newline>'') kvs) @ ''\<newline>'' @ rest"
  shows "\<exists>r'. parseMIMEHeader_loop headers r = ((foldl add_value headers kvs, None), r')
           \<and> unread r' = rest"
  using assms
proof (induction kvs arbitrary: headers r)
  case Nil
  then have "unread r = [] @ CHR ''\<newline>'' # rest" by simp
  from ReadString_line [OF _ this] obtain r' where
    "ReadString (CHR ''\<newline>'') r = ((''\<newline>'', None), r')" and "unread r' = rest"
    by auto
  then show ?case
    by (subst parseMIMEHeader_loop.simps) (simp add: TrimSpace_newline)
next
  case (Cons p kvs)
  obtain n v where p: "p = (n, v)" by (cases p)
  from Cons.prems(1) p have wf: "CHR '':'' \<notin> set n" "CHR ''\<newline>'' \<notin> set n"
    "CHR ''\<newline>'' \<notin> set v" "TrimSpace n = n" "TrimSpace v = v"
    by simp_all
  let ?rest = "concat (map (\<lambda>p. fst p @ '': '' @ snd p @ ''\<newline>'') kvs) @ ''\<newline>'' @ rest"
  from wf have nl: "CHR ''\<newline>'' \<notin> set (n @ '': '' @ v)" by simp
  from Cons.prems(2) p have "unread r = (n @ '': '' @ v) @ CHR ''\<newline>'' # ?rest" by simp
  from ReadString_line [OF nl this] obtain r1 where
    rs: "ReadString (CHR ''\<newline>'') r = (((n @ '': '' @ v) @ ''\<newline>'', None), r1)"
    and u1: "unread r1 = ?rest"
    by auto
  define w where "w = (if v = [] then [] else CHR '' '' # v)"
  note hl = header_line [OF wf(1,4,5), folded w_def]
  from Cons.prems(1) have "\<forall>p\<in>set kvs. CHR '':'' \<notin> set (fst p) \<and> CHR ''\<newline>'' \<notin> set (fst p) \<and>
             CHR ''\<newline>'' \<notin> set (snd p) \<and> TrimSpace (fst p) = fst p \<and> TrimSpace (snd p) = snd p"
    by simp
  from Cons.IH [OF this u1, of "add_value headers p"] obtain r' where
    ih: "parseMIMEHeader_loop (add_value headers p) r1 =
           ((foldl add_value (add_value headers p) kvs, None), r')"
    and u': "unread r' = rest"
    by blast
  have "parseMIMEHeader_loop headers r = parseMIMEHeader_loop (add_value headers p) r1"
    using rs hl wf(4) by (subst parseMIMEHeader_loop.simps) (simp add: add_value_def p)
  with ih u' show ?case by simp
qed

text \<open>
  C6. For a header block of lines \<open>name: value\<close>, each ended by a newline, followed by
  an empty line (names without colon, names and values without newline and without
  surrounding white space), however the block is split over reads of the connection,
  \<open>parseMIMEHeader\<close> succeeds, leaves what follows the empty line on the stream, and
  returns the map that holds exactly the names of the block as its keys, byte for byte
  (names that differ only in case are different keys), each with the values of its lines
  in the order of the lines.
\<close>

theorem parseMIMEHeader_block:
  assumes "\<forall>(n, v)\<in>set kvs. CHR '':'' \<notin> set n \<and> CHR ''\<newline>'' \<notin> set n \<and>
             CHR ''\<newline>'' \<notin> set v \<and> TrimSpace n = n \<and> TrimSpace v = v"
    and "unread r = concat (map (\<lambda>(n, v). n @ '': '' @ v @ ''\<newline>'') kvs) @ ''\<newline>'' @ rest"
  shows "\<exists>h r'. parseMIMEHeader r = ((h, None), r') \<and> unread r' = rest \<and>
           (\<forall>k. h k = (if k \<in> fst ` set kvs
                        then Some (map snd (filter (\<lambda>(n, v). n = k) kvs))
                        else None))"
proof -
  from assms(1) have a: "\<forall>p\<in>set kvs. CHR '':'' \<notin> set (fst p) \<and> CHR ''\<newline>'' \<notin> set (fst p) \<and>
             CHR ''\<newline>'' \<notin> set (snd p) \<and> TrimSpace (fst p) = fst p \<and> TrimSpace (snd p) = snd p"
    by auto
  from assms(2) have b:
    "unread r = concat (map (\<lambda>p. fst p @ '': '' @ snd p @ ''\<newline>'') kvs) @ ''\<newline>'' @ rest"
    by (simp add: case_prod_unfold)
  from parseMIMEHeader_loop_block [OF a b, of Map.empty] obtain r' where
    "parseMIMEHeader r = ((foldl add_value Map.empty kvs, None), r')" and "unread r' = rest"
    by (auto simp: parseMIMEHeader_def)
  moreover have "\<forall>k. foldl add_value Map.empty kvs k =
      (if k \<in> fst ` set kvs then Some (map snd (filter (\<lambda>(n, v). n = k) kvs)) else None)"
    by (simp add: foldl_add_value values_of_def case_prod_unfold)
  ultimately show ?thesis by blast
qed

lemma TrimSpace_examples:
  "TrimSpace ''Host'' = ''Host''" "TrimSpace ''host'' = ''host''"
  "TrimSpace ''a'' = ''a''" "TrimSpace ''b'' = ''b''" "TrimSpace ''c'' = ''c''"
  by (simp_all add: TrimSpace_def TrimLeftFunc_def TrimRightFunc_def strip.simps isSpace_runes_def)

theorem parseMIMEHeader_block_witness:
  "\<exists>h r'. parseMIMEHeader example_headers = ((h, None), r') \<and> unread r' = ''body'' \<and>
     h ''Host'' = Some [''a'', ''c''] \<and> h ''host'' = Some [''b''] \<and> h ''HOST'' = None"
proof -
  from parseMIMEHeader_block
    [of "[(''Host'', ''a''), (''host'', ''b''), (''Host'', ''c'')]" example_headers "''body''"]
  obtain h r' where "parseMIMEHeader example_headers = ((h, None), r')" and "unread r' = ''body''"
    and "\<forall>k. h k = (if k \<in> fst ` set [(''Host'', ''a''), (''host'', ''b''), (''Host'', ''c'')]
                        then Some (map snd (filter (\<lambda>(n, v). n = k)
                          [(''Host'', ''a''), (''host'', ''b''), (''Host'', ''c'')]))
                        else None)"
    by (auto simp: TrimSpace_examples example_headers_def unread_def)
  then show ?thesis by (intro exI [of _ h] exI [of _ r']) simp
qed

section \<open>Reading the body\<close>

lemma Reader_Read_unread:
  assumes "0 < k" and "unread r \<noteq> []"
  shows "\<exists>p r'. Reader_Read k r = ((p, None), r') \<and> length p \<le> k \<and>
           unread r = p @ unread r' \<and> rderr r' = rderr r \<and>
           stream_size r' < stream_size r"
proof (cases "buf r = []")
  case False
  with assms(1) have "Reader_Read k r = ((take k (buf r), None), r\<lparr>buf := drop k (buf r)\<rparr>)"
    by (simp add: Reader_Read_def)
  moreover have "unread r = take k (buf r) @ unread (r\<lparr>buf := drop k (buf r)\<rparr>)"
    by (simp add: unread_def)
  moreover have "stream_size (r\<lparr>buf := drop k (buf r)\<rparr>) < stream_size r"
    using False assms(1) by (simp add: stream_size_def)
  ultimately show ?thesis by simp
next
  case True
  with assms(2) obtain c cs where rd: "rd r = c # cs"
    by (cases "rd r") (auto simp: unread_def)
  with True assms(1) have
    "Reader_Read k r = ((take k c, None), r\<lparr>buf := drop k c, rd := cs\<rparr>)"
    by (simp add: Reader_Read_def)
  moreover have "unread r = take k c @ unread (r\<lparr>buf := drop k c, rd := cs\<rparr>)"
    using True rd by (simp add: unread_def)
  moreover have "stream_size (r\<lparr>buf := drop k c, rd := cs\<rparr>) < stream_size r"
    using True rd by (simp add: stream_size_def less_Suc_eq_le)
  ultimately show ?thesis by simp
qed

lemma Body_Read_exhausted: "N l \<le> 0 \<Longrightarrow> Body_Read k l = (([], Some EOF), l)"
  by (simp add: Body_Read_def)

lemma ReadAll_loop_exhausted: "N l \<le> 0 \<Longrightarrow> ReadAll_loop grow l b spare = ((b, None), l)"
  by (simp add: ReadAll_loop.simps Body_Read_exhausted)

lemma ReadAll_loop_limited:
  assumes "0 \<le> N l" and "nat (N l) \<le> length (unread (R l))"
  shows "\<exists>l'. ReadAll_loop grow l b spare = ((b @ take (nat (N l)) (unread (R l)), None), l')
           \<and> N l' = 0 \<and> unread (R l') = drop (nat (N l)) (unread (R l))
           \<and> rderr (R l') = rderr (R l) \<and> closer l' = closer l"
  using assms
proof (induction grow l b spare rule: ReadAll_loop.induct)
  case (1 grow l b spare)
  show ?case
  proof (cases "N l = 0")
    case True
    then show ?thesis by (simp add: ReadAll_loop_exhausted)
  next
    case False
    with "1.prems" have pos: "0 < N l" by simp
    define k where "k = (if int spare > N l then nat (N l) else spare)"
    show ?thesis
    proof (cases "spare = 0")
      case True
      then have br: "Body_Read spare l = (([], None), l)"
        using pos by (simp add: Body_Read_def Reader_Read_def)
      from "1.IH" [of "([], None)" l "[]" None "b @ []" "spare - length ([]::bytes)"] br "1.prems" True
      obtain l' where
        "ReadAll_loop grow l b (Suc (grow (length b))) =
           ((b @ take (nat (N l)) (unread (R l)), None), l')"
        and "N l' = 0" and "unread (R l') = drop (nat (N l)) (unread (R l))"
        and "rderr (R l') = rderr (R l)" and "closer l' = closer l"
        by auto
      moreover have "ReadAll_loop grow l b spare = ReadAll_loop grow l b (Suc (grow (length b)))"
        using br True by (subst ReadAll_loop.simps) simp
      ultimately show ?thesis by simp
    next
      case False
      then have kpos: "0 < k" using pos by (simp add: k_def)
      have kN: "int k \<le> N l" using pos by (simp add: k_def)
      from pos "1.prems" have ne: "unread (R l) \<noteq> []" by auto
      from Reader_Read_unread [OF kpos ne] obtain p r' where
        rr: "Reader_Read k (R l) = ((p, None), r')" and pk: "length p \<le> k"
        and u: "unread (R l) = p @ unread r'" and e: "rderr r' = rderr (R l)"
        by blast
      define l1 where "l1 = l\<lparr>R := r', N := N l - int (length p)\<rparr>"
      have br: "Body_Read spare l = ((p, None), l1)"
        using pos rr by (simp add: Body_Read_def k_def l1_def)
      have n1: "0 \<le> N l1" using pk kN by (simp add: l1_def)
      have n1': "nat (N l1) = nat (N l) - length p"
        using pk kN by (simp add: l1_def nat_diff_distrib)
      have len: "nat (N l1) \<le> length (unread (R l1))"
        using "1.prems"(2) u n1' by (simp add: l1_def)
      define spare1 where
        "spare1 = (if spare - length p = 0 then Suc (grow (length (b @ p))) else spare - length p)"
      from "1.IH" [of "(p, None)" l1 p None "b @ p" "spare - length p"] br n1 len
      obtain l' where
        ih: "ReadAll_loop grow l1 (b @ p) spare1 =
           (((b @ p) @ take (nat (N l1)) (unread (R l1)), None), l')"
        and "N l' = 0" and "unread (R l') = drop (nat (N l1)) (unread (R l1))"
        and "rderr (R l') = rderr (R l1)" and "closer l' = closer l1"
        by (auto simp: spare1_def)
      moreover have "ReadAll_loop grow l b spare = ReadAll_loop grow l1 (b @ p) spare1"
        using br by (subst ReadAll_loop.simps) (simp add: spare1_def)
      moreover have "(b @ p) @ take (nat (N l1)) (unread (R l1)) =
          b @ take (nat (N l)) (unread (R l))"
      proof -
        have "length p \<le> nat (N l)" using pk kN by linarith
        then have "take (nat (N l)) (p @ unread r') = p @ take (nat (N l) - length p) (unread r')"
          by simp
        then show ?thesis using u n1' by (simp add: l1_def)
      qed
      moreover have "drop (nat (N l1)) (unread (R l1)) = drop (nat (N l)) (unread (R l))"
      proof -
        have "length p \<le> nat (N l)" using pk kN by linarith
        then have "drop (nat (N l)) (p @ unread r') = drop (nat (N l) - length p) (unread r')"
          by simp
        then show ?thesis using u n1' by (simp add: l1_def)
      qed
      ultimately show ?thesis using e by (simp add: l1_def)
    qed
  qed
qed

text \<open>
  C3. For a content length \<open>n \<ge> 0\<close> and an underlying stream that still holds at
  least \<open>n\<close> bytes, however they are split between the buffer and later reads of the
  connection, reading the body to its end returns exactly the first \<open>n\<close> bytes and a nil
  error (end of stream was reached); every later read of the body reports end of
  stream, and the bytes after the first \<open>n\<close> stay on the underlying stream.
\<close>

theorem body_reads_exactly_contentLength:
  assumes "0 \<le> n" and "nat n \<le> length (unread r)"
  shows "\<exists>l'. ReadAll grow (makeBodyReadCloser r n) = ((take (nat n) (unread r), None), l')
           \<and> (\<forall>k. Body_Read k l' = (([], Some EOF), l'))
           \<and> unread (R l') = drop (nat n) (unread r)"
proof -
  from ReadAll_loop_limited [of "makeBodyReadCloser r n" grow "[]" 512] assms
  obtain l' where "ReadAll grow (makeBodyReadCloser r n) = ((take (nat n) (unread r), None), l')"
    and "N l' = 0" and "unread (R l') = drop (nat n) (unread r)"
    by (auto simp: ReadAll_def makeBodyReadCloser_def)
  then show ?thesis by (auto simp: Body_Read_exhausted)
qed

theorem body_reads_exactly_contentLength_witness:
  "parseContentLength [''Content-Length'' \<mapsto> [''5'']] = Inr 5
   \<and> fst (ReadAll (\<lambda>c. c) (makeBodyReadCloser example_reader 5)) = (''hello'', None)
   \<and> unread (R (snd (ReadAll (\<lambda>c. c) (makeBodyReadCloser example_reader 5)))) = '' world''"
proof -
  have "parseContentLength [''Content-Length'' \<mapsto> [''5'']] = Inr 5"
    by (simp add: parseContentLength_def Header_Get_def CanonicalMIMEHeaderKey_def
        validHeaderFieldByte_def byte_def Let_def TrimString_def isASCIISpace_def
        ParseUint_10_def maxUint64_def)
  then show ?thesis
    using body_reads_exactly_contentLength [of 5 example_reader "\<lambda>c. c"]
    by (auto simp: example_reader_def unread_def)
qed

section \<open>Closing the body\<close>

text \<open>
  C5 (as amended). Closing a body with \<open>naiveCloser\<close> discards, when the reader has at
  least one byte buffered, every unread byte of the underlying stream up to its end
  (the unread bytes of the body and all that follow them), and discards nothing when no
  byte is buffered; closing the body of the second variant (\<open>NopCloser\<close>) discards
  nothing.
\<close>

theorem Body_Close_drain:
  "(closer l = naiveCloser \<and> 0 < Buffered (R l) \<longrightarrow>
      (\<exists>err l'. Body_Close l = (err, l') \<and> unread (R l') = [] \<and> N l' = N l))
   \<and> (closer l = naiveCloser \<and> Buffered (R l) = 0 \<longrightarrow> Body_Close l = (None, l))
   \<and> (closer l = NopCloser \<longrightarrow> Body_Close l = (None, l))"
  by (auto simp: Body_Close_def naiveCloser_Close_def Copy_Discard_def unread_def)

theorem Body_Close_drain_witness:
  "unread (R (snd (Body_Close (makeBodyReadCloser \<lparr>buf = ''abNEXT'', rd = [''more''], rderr = EOF\<rparr> 2)))) = []
   \<and> Body_Close (makeBodyReadCloser \<lparr>buf = [], rd = [''ab''], rderr = EOF\<rparr> 2) =
       (None, makeBodyReadCloser \<lparr>buf = [], rd = [''ab''], rderr = EOF\<rparr> 2)
   \<and> Body_Close (makeBodyNopCloser \<lparr>buf = ''abNEXT'', rd = [], rderr = EOF\<rparr> 2) =
       (None, makeBodyNopCloser \<lparr>buf = ''abNEXT'', rd = [], rderr = EOF\<rparr> 2)"
  using Body_Close_drain [of "makeBodyReadCloser \<lparr>buf = ''abNEXT'', rd = [''more''], rderr = EOF\<rparr> 2"]
    Body_Close_drain [of "makeBodyReadCloser \<lparr>buf = [], rd = [''ab''], rderr = EOF\<rparr> 2"]
    Body_Close_drain [of "makeBodyNopCloser \<lparr>buf = ''abNEXT'', rd = [], rderr = EOF\<rparr> 2"]
  by (auto simp: makeBodyReadCloser_def makeBodyNopCloser_def Buffered_def)

text \<open>
  C5 as stated fails: with two body bytes unread, closing discards the four
  bytes after the body as well; with the two body bytes not yet buffered, closing leaves
  them on the stream; and the second variant's closer leaves them there always.
\<close>

theorem Body_Close_counterexample:
  "\<not> drained_exactly (makeBodyReadCloser \<lparr>buf = ''abNEXT'', rd = [], rderr = EOF\<rparr> 2)
        (snd (Body_Close (makeBodyReadCloser \<lparr>buf = ''abNEXT'', rd = [], rderr = EOF\<rparr> 2)))
   \<and> \<not> drained_exactly (makeBodyReadCloser \<lparr>buf = [], rd = [''ab''], rderr = EOF\<rparr> 2)
        (snd (Body_Close (makeBodyReadCloser \<lparr>buf = [], rd = [''ab''], rderr = EOF\<rparr> 2)))
   \<and> \<not> drained_exactly (makeBodyNopCloser \<lparr>buf = ''ab'', rd = [], rderr = EOF\<rparr> 2)
        (snd (Body_Close (makeBodyNopCloser \<lparr>buf = ''ab'', rd = [], rderr = EOF\<rparr> 2)))"
  by (simp add: drained_exactly_def Body_Close_def naiveCloser_Close_def Copy_Discard_def
      Buffered_def makeBodyReadCloser_def makeBodyNopCloser_def unread_def)

section \<open>Resolving the content length\<close>

lemma CanonicalMIMEHeaderKey_Content_Length:
  "CanonicalMIMEHeaderKey ''Content-Length'' = ''Content-Length''"
  by (simp add: CanonicalMIMEHeaderKey_def validHeaderFieldByte_def byte_def Let_def)

lemma Header_Get_Content_Length:
  "Header_Get h ''Content-Length'' =
     (case h ''Content-Length'' of None \<Rightarrow> [] | Some [] \<Rightarrow> [] | Some (v # vs) \<Rightarrow> v)"
  by (simp add: Header_Get_def CanonicalMIMEHeaderKey_Content_Length)

lemma decimal_from_simps [simp]:
  "decimal_from n [] = n"
  "decimal_from n (c # s) = decimal_from (10 * n + (byte c - 48)) s"
  by (simp_all add: decimal_from_def)

lemma decimal_from_ge: "n \<le> decimal_from n s"
proof (induction s arbitrary: n)
  case Nil
  show ?case by simp
next
  case (Cons c s)
  have "n \<le> 10 * n + (byte c - 48)" by simp
  also have "\<dots> \<le> decimal_from (10 * n + (byte c - 48)) s" by (rule Cons.IH)
  finally show ?case by simp
qed

lemma ParseUint_loop_digit:
  assumes dig: "48 \<le> byte c \<and> byte c \<le> 57" and "maxVal < 2 ^ 64" and "n \<le> maxVal"
  shows "ParseUint_loop (maxUint64 div 10 + 1) maxVal n (c # s) =
     (if n * 10 + (byte c - 48) \<le> maxVal
      then ParseUint_loop (maxUint64 div 10 + 1) maxVal (n * 10 + (byte c - 48)) s
      else Inl ErrRange)"
proof -
  define d where "d = byte c - 48"
  define C where "C = maxUint64 div 10 + 1"
  have C: "C = 1844674407370955162" by (simp add: C_def maxUint64_def)
  have d9: "d \<le> 9" using dig unfolding d_def by arith
  have step: "ParseUint_loop C maxVal n (c # s) =
      (if n \<ge> C then Inl ErrRange
       else if (n * 10 mod 2 ^ 64 + d) mod 2 ^ 64 < n * 10 mod 2 ^ 64 \<or>
               (n * 10 mod 2 ^ 64 + d) mod 2 ^ 64 > maxVal then Inl ErrRange
       else ParseUint_loop C maxVal ((n * 10 mod 2 ^ 64 + d) mod 2 ^ 64) s)"
    using dig unfolding d_def by (simp add: Let_def)
  have ?thesis if "n \<ge> C"
  proof -
    from that have "n * 10 + d > maxVal" using assms(2) C by simp
    with that step show ?thesis by (simp add: d_def C_def)
  qed
  moreover have ?thesis if small: "\<not> n \<ge> C"
  proof -
    from small have m: "n * 10 mod 2 ^ 64 = n * 10" using C by simp
    show ?thesis
    proof (cases "n * 10 + d < 2 ^ 64")
      case True
      then have "(n * 10 + d) mod 2 ^ 64 = n * 10 + d" by simp
      with step small m show ?thesis by (auto simp: d_def C_def)
    next
      case False
      then have "(n * 10 + d) mod 2 ^ 64 = n * 10 + d - 2 ^ 64"
        using small d9 C by (simp add: mod_if)
      then have "(n * 10 + d) mod 2 ^ 64 < n * 10" using d9 False by simp
      moreover from False have "n * 10 + d > maxVal" using assms(2) by simp
      ultimately show ?thesis using step small m by (simp add: d_def C_def)
    qed
  qed
  ultimately show ?thesis by blast
qed

lemma ParseUint_loop_spec:
  assumes "maxVal < 2 ^ 64" and "n \<le> maxVal"
  shows "ParseUint_loop (maxUint64 div 10 + 1) maxVal n s = Inr m \<longleftrightarrow>
     list_all (\<lambda>c. 48 \<le> byte c \<and> byte c \<le> 57) s \<and> decimal_from n s \<le> maxVal
     \<and> m = decimal_from n s"
  using assms(2)
proof (induction s arbitrary: n)
  case Nil
  then show ?case by auto
next
  case (Cons c s)
  show ?case
  proof (cases "48 \<le> byte c \<and> byte c \<le> 57")
    case False
    then have "ParseUint_loop (maxUint64 div 10 + 1) maxVal n (c # s) = Inl ErrSyntax"
      by (simp only: ParseUint_loop.simps if_False)
    with False show ?thesis
      by (auto simp del: ParseUint_loop.simps)
  next
    case True
    note step = ParseUint_loop_digit [OF True assms(1) Cons.prems, of s]
    show ?thesis
    proof (cases "n * 10 + (byte c - 48) \<le> maxVal")
      case le: True
      from Cons.IH [OF le] step le True show ?thesis
        by (simp add: mult.commute del: ParseUint_loop.simps)
    next
      case gt: False
      have "n * 10 + (byte c - 48) \<le> decimal_from (n * 10 + (byte c - 48)) s"
        by (rule decimal_from_ge)
      with gt have "\<not> decimal_from (n * 10 + (byte c - 48)) s \<le> maxVal" by simp
      with step gt True show ?thesis
        by (simp add: mult.commute del: ParseUint_loop.simps)
    qed
  qed
qed

lemma ParseUint_10_63:
  "ParseUint_10 s 63 = Inr n \<longleftrightarrow> is_decimal s \<and> decimal_value s < 2 ^ 63 \<and> n = decimal_value s"
proof (cases "s = []")
  case True
  then show ?thesis by (simp add: ParseUint_10_def is_decimal_def)
next
  case False
  have "ParseUint_loop (maxUint64 div 10 + 1) (2 ^ 63 - 1) 0 s = Inr n \<longleftrightarrow>
     list_all (\<lambda>c. 48 \<le> byte c \<and> byte c \<le> 57) s \<and> decimal_from 0 s \<le> 2 ^ 63 - 1
     \<and> n = decimal_from 0 s"
    by (rule ParseUint_loop_spec) simp_all
  moreover have "decimal_from 0 s \<le> 2 ^ 63 - 1 \<longleftrightarrow> decimal_from 0 s < 2 ^ 63"
    by auto
  ultimately show ?thesis using False
    by (simp add: ParseUint_10_def is_decimal_def decimal_value_def)
qed

text \<open>
  C8. For a \<open>Content-Length\<close> value \<open>v\<close> found by the lookup (under \<open>Content-Length\<close>, or
  under \<open>content-length\<close> when nothing is found under the canonical name) that is not
  empty after trimming: if the trimmed value parses as a non-negative 64-bit integer,
  resolution succeeds with that integer; otherwise it fails with the error
  \<open>bad Content-Length\<close>, which carries the trimmed value.
\<close>

theorem parseContentLength_value:
  assumes "(h ''Content-Length'' = Some (v # vs) \<and> v \<noteq> [])
         \<or> (Header_Get h ''Content-Length'' = [] \<and> h ''content-length'' = Some (v # vs))"
    and "TrimString v \<noteq> []"
  shows "parseContentLength h =
     (if is_decimal (TrimString v) \<and> decimal_value (TrimString v) < 2 ^ 63
      then Inr (int (decimal_value (TrimString v)))
      else Inl (BadContentLength (TrimString v)))"
proof -
  from assms(1) have cl:
    "(let cl = Header_Get h ''Content-Length''
      in if length cl = 0
         then (case h ''content-length'' of Some (v # vs) \<Rightarrow> v | _ \<Rightarrow> cl) else cl) = v"
    by (auto simp: Header_Get_Content_Length)
  show ?thesis
  proof (cases "ParseUint_10 (TrimString v) 63")
    case (Inl e)
    then have "\<not> (is_decimal (TrimString v) \<and> decimal_value (TrimString v) < 2 ^ 63)"
      using ParseUint_10_63 [of "TrimString v" "decimal_value (TrimString v)"] by auto
    with Inl assms(2) cl show ?thesis
      by (simp add: parseContentLength_def Let_def)
  next
    case (Inr n)
    then have "is_decimal (TrimString v) \<and> decimal_value (TrimString v) < 2 ^ 63
       \<and> n = decimal_value (TrimString v)"
      by (simp add: ParseUint_10_63)
    with Inr assms(2) cl show ?thesis
      by (simp add: parseContentLength_def Let_def)
  qed
qed

theorem parseContentLength_value_witness:
  "parseContentLength [''Content-Length'' \<mapsto> [''abc'']] = Inl (BadContentLength ''abc'')
   \<and> parseContentLength [''Content-Length'' \<mapsto> ['' 5 '']] = Inr 5
   \<and> parseContentLength [''content-length'' \<mapsto> [''9223372036854775807'']] = Inr 9223372036854775807
   \<and> parseContentLength [''Content-Length'' \<mapsto> [''9223372036854775808'']] =
       Inl (BadContentLength ''9223372036854775808'')
   \<and> parseContentLength [''Content-Length'' \<mapsto> [''-1'']] = Inl (BadContentLength ''-1'')"
  using parseContentLength_value [of "[''Content-Length'' \<mapsto> [''abc'']]" "''abc''" "[]"]
    parseContentLength_value [of "[''Content-Length'' \<mapsto> ['' 5 '']]" "'' 5 ''" "[]"]
    parseContentLength_value [of "[''content-length'' \<mapsto> [''9223372036854775807'']]" "''9223372036854775807''" "[]"]
    parseContentLength_value [of "[''Content-Length'' \<mapsto> [''9223372036854775808'']]" "''9223372036854775808''" "[]"]
    parseContentLength_value [of "[''Content-Length'' \<mapsto> [''-1'']]" "''-1''" "[]"]
  by (simp add: Header_Get_Content_Length TrimString_def isASCIISpace_def is_decimal_def
      decimal_value_def byte_def)

text \<open>
  C4 (as amended). When no value is found under \<open>Content-Length\<close> nor under \<open>content-length\<close>, or
  the value the lookup finds (the one under \<open>Content-Length\<close> unless it is the empty
  string, else the first one under \<open>content-length\<close>) is empty after trimming, the
  content length resolves to \<open>-1\<close> without error, and the body built with it is
  exhausted from the start: a read returns no byte and end of stream, whatever the
  underlying stream holds, and reading it to the end returns no byte.
\<close>

theorem missing_Content_Length_empty_body:
  assumes "(Header_Get h ''Content-Length'' = [] \<and> values_of h ''content-length'' = [])
         \<or> (Header_Get h ''Content-Length'' \<noteq> [] \<and> TrimString (Header_Get h ''Content-Length'') = [])
         \<or> (Header_Get h ''Content-Length'' = [] \<and>
             (\<exists>v vs. values_of h ''content-length'' = v # vs \<and> TrimString v = []))"
  shows "parseContentLength h = Inr (- 1)
       \<and> Body_Read k (makeBodyReadCloser r (- 1)) = (([], Some EOF), makeBodyReadCloser r (- 1))
       \<and> ReadAll grow (makeBodyReadCloser r (- 1)) = (([], None), makeBodyReadCloser r (- 1))"
proof -
  have t: "TrimString [] = []" by (simp add: TrimString_def)
  from assms have "parseContentLength h = Inr (- 1)"
    by (auto simp: parseContentLength_def values_of_def t split: option.splits list.splits)
  moreover have "N (makeBodyReadCloser r (- 1)) \<le> 0"
    by (simp add: makeBodyReadCloser_def)
  ultimately show ?thesis
    by (simp add: Body_Read_exhausted ReadAll_def ReadAll_loop_exhausted)
qed

theorem missing_Content_Length_empty_body_witness:
  "parseContentLength Map.empty = Inr (- 1)
   \<and> parseContentLength [''Content-Length'' \<mapsto> [''  '']] = Inr (- 1)
   \<and> parseContentLength [''content-length'' \<mapsto> ['''']] = Inr (- 1)
   \<and> ReadAll (\<lambda>c. c) (makeBodyReadCloser example_reader (- 1)) =
        (([], None), makeBodyReadCloser example_reader (- 1))"
  using missing_Content_Length_empty_body [of Map.empty 1 example_reader "\<lambda>c. c"]
    missing_Content_Length_empty_body [of "[''Content-Length'' \<mapsto> [''  '']]" 1 example_reader "\<lambda>c. c"]
    missing_Content_Length_empty_body [of "[''content-length'' \<mapsto> ['''']]" 1 example_reader "\<lambda>c. c"]
  by (simp add: Header_Get_Content_Length values_of_def TrimString_def isASCIISpace_def)

lemma TrimSpace_spellings:
  "TrimSpace ''Content-Length'' = ''Content-Length''"
  "TrimSpace ''content-length'' = ''content-length''"
  "TrimSpace ''7'' = ''7''"
  by (simp_all add: TrimSpace_def TrimLeftFunc_def TrimRightFunc_def strip.simps isSpace_runes_def)

text \<open>
  C4 as stated fails. For the request \<open>both_spellings\<close> the parser stores the empty
  string under \<open>Content-Length\<close> and \<open>7\<close> under \<open>content-length\<close>. The value of the
  \<open>Content-Length\<close> header is empty after trimming, yet the lookup takes the empty
  string for a missing one and goes on to the lowercase spelling: the content length
  resolves to 7, not to \<open>-1\<close>, and the body yields seven bytes, not zero.
\<close>

theorem empty_Content_Length_counterexample:
  "fst (fst (parseMIMEHeader both_spellings)) ''Content-Length'' = Some ['''']
   \<and> fst (fst (parseMIMEHeader both_spellings)) ''content-length'' = Some [''7'']
   \<and> TrimString (Header_Get (fst (fst (parseMIMEHeader both_spellings))) ''Content-Length'') = []
   \<and> parseContentLength (fst (fst (parseMIMEHeader both_spellings))) = Inr 7
   \<and> fst (ReadAll (\<lambda>c. c)
          (makeBodyReadCloser (snd (parseMIMEHeader both_spellings)) 7)) = (''hello w'', None)"
proof -
  let ?kvs = "[(''Content-Length'', ''''), (''content-length'', ''7'')]"
  have a: "\<forall>p\<in>set ?kvs. CHR '':'' \<notin> set (fst p) \<and> CHR ''\<newline>'' \<notin> set (fst p) \<and>
             CHR ''\<newline>'' \<notin> set (snd p) \<and> TrimSpace (fst p) = fst p \<and> TrimSpace (snd p) = snd p"
    by (simp add: TrimSpace_spellings TrimSpace_Nil)
  have b: "unread both_spellings =
      concat (map (\<lambda>p. fst p @ '': '' @ snd p @ ''\<newline>'') ?kvs) @ ''\<newline>'' @ ''hello world''"
    by (simp add: both_spellings_def unread_def)
  from parseMIMEHeader_loop_block [OF a b, of Map.empty] obtain r' where
    p: "parseMIMEHeader both_spellings = ((foldl add_value Map.empty ?kvs, None), r')"
    and u: "unread r' = ''hello world''"
    by (auto simp: parseMIMEHeader_def)
  define h where "h = foldl add_value Map.empty ?kvs"
  have h1: "h ''Content-Length'' = Some ['''']" and h2: "h ''content-length'' = Some [''7'']"
    unfolding h_def by (simp_all add: add_value_def values_of_def)
  have g: "Header_Get h ''Content-Length'' = []"
    by (simp add: Header_Get_Content_Length h1)
  have t: "TrimString [] = []" by (simp add: TrimString_def)
  have pu: "ParseUint_10 ''7'' 63 = Inr 7"
    by (simp add: ParseUint_10_def maxUint64_def byte_def)
  have cl: "parseContentLength h = Inr 7"
    by (simp add: parseContentLength_def g h2 TrimString_def isASCIISpace_def pu)
  have "0 \<le> N (makeBodyReadCloser r' 7)"
    and "nat (N (makeBodyReadCloser r' 7)) \<le> length (unread (R (makeBodyReadCloser r' 7)))"
    by (simp_all add: makeBodyReadCloser_def u)
  from ReadAll_loop_limited [OF this, of "\<lambda>c. c" "[]" 512]
  have ra: "fst (ReadAll (\<lambda>c. c) (makeBodyReadCloser r' 7)) = (''hello w'', None)"
    by (auto simp: ReadAll_def makeBodyReadCloser_def u)
  from p h1 h2 g t cl ra show ?thesis by (simp add: h_def)
qed

section \<open>Setting the status\<close>

text \<open>
  C9. Setting a status code below 100 or above 999 panics; every code from 100 to 999
  is accepted and stored in the response.
\<close>

theorem WriteStatus_range:
  "(code < 100 \<or> code > 999 \<longrightarrow>
      WriteStatus code r = Inl (Panic (''invalid WriteHeader code '' @ Sprintf_v code)))
   \<and> (100 \<le> code \<and> code \<le> 999 \<longrightarrow>
      WriteStatus code r = Inr (r\<lparr>status := code\<rparr>))"
  by (auto simp: WriteStatus_def)

theorem WriteStatus_range_witness:
  "WriteStatus 42 Response_zero = Inl (Panic ''invalid WriteHeader code 42'')
   \<and> WriteStatus 1000 Response_zero = Inl (Panic ''invalid WriteHeader code 1000'')
   \<and> WriteStatus 200 Response_zero = Inr \<lparr>status = 200, header = None, data = []\<rparr>"
  using WriteStatus_range [of 42 Response_zero] WriteStatus_range [of 1000 Response_zero]
    WriteStatus_range [of 200 Response_zero]
  by (simp add: Sprintf_v_def digits.simps digit_def Response_zero_def)

section \<open>Rendering the response\<close>

lemma Join_snoc: "Join (xs @ [x]) sep = concat (map (\<lambda>l. l @ sep) xs) @ x"
  by (induction xs sep rule: Join.induct) auto

lemma range_order_single:
  assumes "range_order (Some [k \<mapsto> v]) ks"
  shows "ks = [k]"
proof -
  from assms have d: "distinct ks" and s: "set ks = {k}"
    by (simp_all add: range_order_def)
  from s obtain x xs where ks: "ks = x # xs" by (cases ks) auto
  with s have "x = k" by auto
  moreover from d s ks have "xs = []" by (cases xs) auto
  ultimately show ?thesis using ks by simp
qed

lemma range_order_None: "range_order None ks \<longleftrightarrow> ks = []"
  by (auto simp: range_order_def)

lemma Sprintf_v_examples:
  "Sprintf_v 200 = ''200''" "Sprintf_v 11 = ''11''" "Sprintf_v 0 = ''0''" "Sprintf_v 2 = ''2''"
  by (simp_all add: Sprintf_v_def digits.simps digit_def)

lemma hello_response_eq:
  "hello_response =
     \<lparr>status = 200, header = Some [''Content-Type'' \<mapsto> [''text/plain'']], data = ''hello world''\<rparr>"
  by (simp add: hello_response_def WriteData_def WriteHeader_def Response_zero_def values_of_def
      Let_def)

lemma own_length_response_eq:
  "own_length_response =
     \<lparr>status = 200, header = Some [''Content-Length'' \<mapsto> [''99'']], data = ''hi''\<rparr>"
  by (simp add: own_length_response_def WriteData_def WriteHeader_def Response_zero_def
      values_of_def Let_def)

text \<open>
  C2. A response with status 200, the single header \<open>Content-Type: text/plain\<close> and the
  body \<open>hello world\<close> renders, whatever order the map range takes, as exactly
  \<open>HTTP/1.1 200 OK\<close>, \<open>Content-Type: text/plain\<close>, \<open>Content-Length: 11\<close>, each ended by a
  single newline, then an empty line and the body.
\<close>

theorem respond_hello_world:
  assumes "status r = 200"
    and "header r = Some [''Content-Type'' \<mapsto> [''text/plain'']]"
    and "data r = ''hello world''"
    and "range_order (header r) ks"
  shows "respond ks r =
    ''HTTP/1.1 200 OK\<newline>Content-Type: text/plain\<newline>Content-Length: 11\<newline>\<newline>hello world''"
proof -
  from assms(2,4) have "ks = [''Content-Type'']"
    by (simp add: range_order_single)
  with assms(1-3) show ?thesis
    by (simp add: respond_def header_lines_def values_of_def Sprintf_v_examples)
qed

theorem respond_hello_world_witness:
  "WriteStatus 200 Response_zero = Inr (Response_zero\<lparr>status := 200\<rparr>) \<and>
   respond [''Content-Type''] hello_response =
    ''HTTP/1.1 200 OK\<newline>Content-Type: text/plain\<newline>Content-Length: 11\<newline>\<newline>hello world''"
  using respond_hello_world [of hello_response "[''Content-Type'']"]
  by (simp add: hello_response_eq range_order_def WriteStatus_def)

text \<open>
  C7. In every rendered response the header lines are the handler-set lines (one for
  each value of each name, none dropped and none merged) followed by one more line,
  \<open>Content-Length\<close> with the length of the body; that line is added whether or not the
  handler set a \<open>Content-Length\<close> of its own, so the rendered response can carry two.
\<close>

theorem respond_Content_Length_last:
  assumes "range_order (header r) ks"
  shows "\<exists>hl. respond ks r =
           ''HTTP/1.1 '' @ Sprintf_v (status r) @ '' OK\<newline>'' @
           concat (map (\<lambda>l. l @ ''\<newline>'') hl) @
           ''Content-Length: '' @ Sprintf_v (int (length (data r))) @ ''\<newline>\<newline>'' @ data r
         \<and> mset hl = (case header r of None \<Rightarrow> {#}
              | Some h \<Rightarrow> (\<Sum>k\<in>dom h. mset (map (\<lambda>v. k @ '': '' @ v) (values_of h k))))"
proof (intro exI conjI)
  show "respond ks r =
           ''HTTP/1.1 '' @ Sprintf_v (status r) @ '' OK\<newline>'' @
           concat (map (\<lambda>l. l @ ''\<newline>'') (header_lines ks (header r))) @
           ''Content-Length: '' @ Sprintf_v (int (length (data r))) @ ''\<newline>\<newline>'' @ data r"
    by (simp add: respond_def Join_snoc)
  show "mset (header_lines ks (header r)) = (case header r of None \<Rightarrow> {#}
              | Some h \<Rightarrow> (\<Sum>k\<in>dom h. mset (map (\<lambda>v. k @ '': '' @ v) (values_of h k))))"
  proof (cases "header r")
    case None
    then show ?thesis by (simp add: header_lines_def)
  next
    case (Some h)
    with assms have d: "distinct ks" and s: "set ks = dom h"
      by (simp_all add: range_order_def)
    have "mset (header_lines ks (Some h)) =
        sum_list (map (\<lambda>k. mset (map (\<lambda>v. k @ '': '' @ v) (values_of h k))) ks)"
      by (simp add: header_lines_def mset_concat comp_def)
    also have "\<dots> = (\<Sum>k\<in>set ks. mset (map (\<lambda>v. k @ '': '' @ v) (values_of h k)))"
      using d by (rule sum_list_distinct_conv_sum_set)
    finally show ?thesis using Some s by simp
  qed
qed

theorem respond_Content_Length_last_witness:
  "range_order (header own_length_response) [''Content-Length''] \<and>
   respond [''Content-Length''] own_length_response =
     ''HTTP/1.1 200 OK\<newline>Content-Length: 99\<newline>Content-Length: 2\<newline>\<newline>hi''"
proof -
  have ro: "range_order (header own_length_response) [''Content-Length'']"
    by (simp add: own_length_response_eq range_order_def)
  from respond_Content_Length_last [OF ro] obtain hl where
    out: "respond [''Content-Length''] own_length_response =
           ''HTTP/1.1 '' @ Sprintf_v (status own_length_response) @ '' OK\<newline>'' @
           concat (map (\<lambda>l. l @ ''\<newline>'') hl) @
           ''Content-Length: '' @ Sprintf_v (int (length (data own_length_response))) @
           ''\<newline>\<newline>'' @ data own_length_response"
    and hl: "mset hl = (case header own_length_response of None \<Rightarrow> {#}
              | Some h \<Rightarrow> (\<Sum>k\<in>dom h. mset (map (\<lambda>v. k @ '': '' @ v) (values_of h k))))"
    by blast
  from hl have "mset hl = {#''Content-Length: 99''#}"
    by (simp add: own_length_response_eq values_of_def)
  then have "hl = [''Content-Length: 99'']"
    by simp
  with out ro show ?thesis
    by (simp add: own_length_response_eq Sprintf_v_examples)
qed

text \<open>
  C10. Rendering the zero-valued response, whose status was never set, succeeds: the
  output is \<open>HTTP/1.1 0 OK\<close>, \<open>Content-Length: 0\<close> and an empty line. More generally,
  whatever headers and data it holds, a response whose status is still 0 renders with
  the status line \<open>HTTP/1.1 0 OK\<close>; rendering has no failing branch.
\<close>

theorem respond_unset_status:
  "(range_order (header Response_zero) ks \<longrightarrow>
      respond ks Response_zero = ''HTTP/1.1 0 OK\<newline>Content-Length: 0\<newline>\<newline>'')
   \<and> (status r = 0 \<longrightarrow> prefix ''HTTP/1.1 0 OK\<newline>'' (respond ks' r))"
  by (simp add: respond_def Response_zero_def range_order_None header_lines_def
      Sprintf_v_examples)

theorem respond_unset_status_witness:
  "respond [] Response_zero = ''HTTP/1.1 0 OK\<newline>Content-Length: 0\<newline>\<newline>''
   \<and> prefix ''HTTP/1.1 0 OK\<newline>''
        (respond [''X''] (WriteData ''abc'' (WriteHeader ''X'' ''y'' Response_zero)))"
  using respond_unset_status
    [of "[]" "WriteData ''abc'' (WriteHeader ''X'' ''y'' Response_zero)" "[''X'']"]
  by (simp add: range_order_def Response_zero_def WriteData_def WriteHeader_def Let_def)

end
